theory Spec2Isabelle
  imports Main
begin

section \<open>The lifecycle guard of src/Utils/StartStop.cpp\<close>

text \<open>
  The class \<open>Dissent::Utils::StartStop\<close> holds two private boolean members,
  \<open>_started\<close> and \<open>_stopped\<close>. A method that mutates the object takes the object
  and returns it updated; a method with a \<open>bool\<close> result returns the pair of the result
  and the updated object. The source has no \<open>throw\<close>, no assertion and no loop, so
  no method has an error branch.
\<close>

record StartStop =
  started :: bool
  stopped :: bool

text \<open>The constructor initialises both members to \<open>false\<close>.\<close>

definition StartStop_ctor :: StartStop where
  "StartStop_ctor = \<lparr>started = False, stopped = False\<rparr>"

text \<open>
  Modelled from the spec: the accessors \<open>Started()\<close> and \<open>Stopped()\<close> are declared in
  \<open>StartStop.hpp\<close>, which is not among the sources. The specification describes them
  as plain reads of the stored flags, safe to call in any state.
\<close>

definition Started :: "StartStop \<Rightarrow> bool" where
  "Started s = started s"

definition Stopped :: "StartStop \<Rightarrow> bool" where
  "Stopped s = stopped s"

text \<open>
  \<^verbatim>\<open>
  bool StartStop::Start()
  {
    if(_started || _stopped) { return false; }
    _started = true;
    return true;
  }
  \<close>
\<close>

definition Start :: "StartStop \<Rightarrow> bool \<times> StartStop" where
  "Start s =
     (if started s \<or> stopped s then (False, s)
      else (True, s\<lparr>started := True\<rparr>))"

text \<open>
  \<^verbatim>\<open>
  bool StartStop::Stop()
  {
    if(_stopped) { return false; }
    _stopped = true;
    return true;
  }
  \<close>
\<close>

definition Stop :: "StartStop \<Rightarrow> bool \<times> StartStop" where
  "Stop s =
     (if stopped s then (False, s)
      else (True, s\<lparr>stopped := True\<rparr>))"

text \<open>
  \<^verbatim>\<open>
  void StartStop::DestructorCheck()
  {
    if(!Stopped() && Started()) { Stop(); }
  }
  \<close>
  The result of the nested \<open>Stop()\<close> is discarded; only its effect on the object stays.
\<close>

definition DestructorCheck :: "StartStop \<Rightarrow> StartStop" where
  "DestructorCheck s =
     (if \<not> Stopped s \<and> Started s then snd (Stop s) else s)"

section \<open>Sequences of calls\<close>

text \<open>
  A client of the guard issues \<open>Start()\<close>, \<open>Stop()\<close> and the teardown hook
  \<open>DestructorCheck()\<close> in any order. \<open>exec\<close> is the effect of one such call on the
  object and \<open>final\<close> the effect of a sequence, the first call of the list first.
\<close>

datatype call = Call_Start | Call_Stop | Call_DestructorCheck

fun exec :: "call \<Rightarrow> StartStop \<Rightarrow> StartStop" where
  "exec Call_Start s = snd (Start s)"
| "exec Call_Stop s = snd (Stop s)"
| "exec Call_DestructorCheck s = DestructorCheck s"

fun final :: "call list \<Rightarrow> StartStop \<Rightarrow> StartStop" where
  "final [] s = s"
| "final (c # cs) s = final cs (exec c s)"

text \<open>The objects a sequence goes through, the starting one included.\<close>

fun states :: "call list \<Rightarrow> StartStop \<Rightarrow> StartStop list" where
  "states [] s = [s]"
| "states (c # cs) s = s # states cs (exec c s)"

text \<open>
  The two methods with a result are \<open>Start()\<close> and \<open>Stop()\<close>. An event records one
  invocation of either: the method, the object before, the value returned and the object
  after.
\<close>

datatype operation = Op_Start | Op_Stop

fun invoke :: "operation \<Rightarrow> StartStop \<Rightarrow> bool \<times> StartStop" where
  "invoke Op_Start s = Start s"
| "invoke Op_Stop s = Stop s"

record event =
  ev_op :: operation
  ev_before :: StartStop
  ev_result :: bool
  ev_after :: StartStop

definition observe :: "operation \<Rightarrow> StartStop \<Rightarrow> event" where
  "observe m s =
     \<lparr>ev_op = m, ev_before = s,
      ev_result = fst (invoke m s), ev_after = snd (invoke m s)\<rparr>"

text \<open>
  The invocations of \<open>Start()\<close> and \<open>Stop()\<close> that one call performs: a direct call is
  one invocation; the teardown hook invokes \<open>Stop()\<close> once when its condition holds and
  nothing otherwise.
\<close>

fun issued :: "call \<Rightarrow> StartStop \<Rightarrow> event list" where
  "issued Call_Start s = [observe Op_Start s]"
| "issued Call_Stop s = [observe Op_Stop s]"
| "issued Call_DestructorCheck s =
     (if \<not> Stopped s \<and> Started s then [observe Op_Stop s] else [])"

fun trace :: "call list \<Rightarrow> StartStop \<Rightarrow> event list" where
  "trace [] s = []"
| "trace (c # cs) s = issued c s @ trace cs (exec c s)"

text \<open>The successful invocations of a method in a trace.\<close>

definition successes :: "operation \<Rightarrow> event list \<Rightarrow> event list" where
  "successes m es = filter (\<lambda>e. ev_op e = m \<and> ev_result e) es"

text \<open>
  The number of places in a list of objects where a flag goes from false to true
  (\<open>rises\<close>) and from true to false (\<open>falls\<close>).
\<close>

fun rises :: "(StartStop \<Rightarrow> bool) \<Rightarrow> StartStop list \<Rightarrow> nat" where
  "rises f (a # b # xs) = (if \<not> f a \<and> f b then 1 else 0) + rises f (b # xs)"
| "rises f xs = 0"

fun falls :: "(StartStop \<Rightarrow> bool) \<Rightarrow> StartStop list \<Rightarrow> nat" where
  "falls f (a # b # xs) = (if f a \<and> \<not> f b then 1 else 0) + falls f (b # xs)"
| "falls f xs = 0"

section \<open>Basic facts\<close>

text \<open>
  The events recorded for a call account for its whole effect: replaying them from the
  object before the call gives the object after it, and each event starts where the
  previous one ended.
\<close>

lemma exec_is_replay:
  "exec c s = foldl (\<lambda>t e. snd (invoke (ev_op e) t)) s (issued c s)"
  by (cases c) (simp_all add: observe_def DestructorCheck_def)

lemma issued_before: "e \<in> set (issued c s) \<Longrightarrow> ev_before e = s"
  by (cases c) (auto simp: observe_def split: if_splits)

lemma issued_after: "e \<in> set (issued c s) \<Longrightarrow> ev_after e = exec c s"
  by (cases c) (auto simp: observe_def DestructorCheck_def split: if_splits)

lemma exec_started_mono: "started s \<Longrightarrow> started (exec c s)"
  by (cases c) (simp_all add: Start_def Stop_def DestructorCheck_def)

lemma exec_stopped_mono: "stopped s \<Longrightarrow> stopped (exec c s)"
  by (cases c) (simp_all add: Start_def Stop_def DestructorCheck_def)

lemma exec_stopped_id: "stopped s \<Longrightarrow> exec c s = s"
  by (cases c) (simp_all add: Start_def Stop_def DestructorCheck_def Stopped_def)

lemma final_stopped_id: "stopped s \<Longrightarrow> final cs s = s"
  by (induction cs) (simp_all add: exec_stopped_id)

text \<open>
  Every event of a trace is what its method does on the object before it, so the value
  returned and the object after are determined by the method and the object before.
\<close>

lemma trace_observed:
  "e \<in> set (trace cs s) \<Longrightarrow> e = observe (ev_op e) (ev_before e)"
proof (induction cs arbitrary: s)
  case Nil
  then show ?case by simp
next
  case (Cons c cs)
  from Cons.prems have "e \<in> set (issued c s) \<or> e \<in> set (trace cs (exec c s))"
    by simp
  then show ?case
  proof
    assume "e \<in> set (issued c s)"
    then show ?thesis
      by (cases c) (auto simp: observe_def split: if_splits)
  next
    assume "e \<in> set (trace cs (exec c s))"
    then show ?thesis by (rule Cons.IH)
  qed
qed

text \<open>From an object with \<open>stopped\<close> set, every recorded invocation fails and changes nothing.\<close>

lemma trace_stopped:
  "stopped s \<Longrightarrow> e \<in> set (trace cs s) \<Longrightarrow> \<not> ev_result e \<and> ev_before e = s \<and> ev_after e = s"
proof (induction cs)
  case Nil
  then show ?case by simp
next
  case (Cons c cs)
  from Cons.prems have "e \<in> set (issued c s) \<or> e \<in> set (trace cs s)"
    by (simp add: exec_stopped_id)
  then show ?case
  proof
    assume "e \<in> set (issued c s)"
    with \<open>stopped s\<close> show ?thesis
      by (cases c) (auto simp: observe_def Start_def Stop_def Stopped_def split: if_splits)
  next
    assume "e \<in> set (trace cs s)"
    with Cons show ?thesis by simp
  qed
qed

text \<open>Counting the successful invocations, from any starting object.\<close>

lemma successes_append:
  "successes m (xs @ ys) = successes m xs @ successes m ys"
  by (simp add: successes_def)

lemma successes_issued_Start:
  "length (successes Op_Start (issued c s)) =
     (if c = Call_Start \<and> \<not> started s \<and> \<not> stopped s then 1 else 0)"
  by (cases c) (simp_all add: successes_def observe_def Start_def Stop_def)

lemma successes_issued_Stop:
  "length (successes Op_Stop (issued c s)) =
     (if (c = Call_Stop \<or> c = Call_DestructorCheck \<and> started s) \<and> \<not> stopped s then 1 else 0)"
  by (cases c) (simp_all add: successes_def observe_def Start_def Stop_def Started_def Stopped_def)

lemma Start_successes_bound:
  "length (successes Op_Start (trace cs s)) \<le> (if started s \<or> stopped s then 0 else 1)"
proof (induction cs arbitrary: s)
  case Nil
  then show ?case by (simp add: successes_def)
next
  case (Cons c cs)
  have "length (successes Op_Start (trace (c # cs) s)) =
          length (successes Op_Start (issued c s)) + length (successes Op_Start (trace cs (exec c s)))"
    by (simp add: successes_append)
  moreover note Cons.IH [of "exec c s"] successes_issued_Start [of c s]
  ultimately show ?case
    by (cases c) (auto simp: Start_def Stop_def DestructorCheck_def Started_def Stopped_def split: if_splits)
qed

lemma Stop_successes_bound:
  "length (successes Op_Stop (trace cs s)) \<le> (if stopped s then 0 else 1)"
proof (induction cs arbitrary: s)
  case Nil
  then show ?case by (simp add: successes_def)
next
  case (Cons c cs)
  have "length (successes Op_Stop (trace (c # cs) s)) =
          length (successes Op_Stop (issued c s)) + length (successes Op_Stop (trace cs (exec c s)))"
    by (simp add: successes_append)
  moreover note Cons.IH [of "exec c s"] successes_issued_Stop [of c s]
  ultimately show ?case
    by (cases c) (auto simp: Start_def Stop_def DestructorCheck_def Started_def Stopped_def split: if_splits)
qed

lemma success_before:
  assumes "e \<in> set (successes m (trace cs s))"
  shows "(m = Op_Start \<longrightarrow> \<not> started (ev_before e) \<and> \<not> stopped (ev_before e))
         \<and> (m = Op_Stop \<longrightarrow> \<not> stopped (ev_before e))"
proof -
  from assms have in_trace: "e \<in> set (trace cs s)" and m: "ev_op e = m" and r: "ev_result e"
    by (simp_all add: successes_def)
  from trace_observed [OF in_trace] m have "e = observe m (ev_before e)" by simp
  then have "ev_result e = fst (invoke m (ev_before e))"
    by (metis event.select_convs(3) observe_def)
  with r show ?thesis
    by (cases m) (auto simp: Start_def Stop_def split: if_splits)
qed

text \<open>A flag that no call clears never falls along a sequence and rises at most once.\<close>

lemma states_Cons: "\<exists>xs. states cs s = s # xs"
  by (cases cs) simp_all

lemma falls_states:
  assumes mono: "\<And>c s. f s \<Longrightarrow> f (exec c s)"
  shows "falls f (states cs s) = 0"
proof (induction cs arbitrary: s)
  case Nil
  then show ?case by simp
next
  case (Cons c cs)
  obtain xs where xs: "states cs (exec c s) = exec c s # xs"
    using states_Cons by blast
  with Cons.IH [of "exec c s"] mono [of s c] show ?case by auto
qed

lemma rises_states:
  assumes mono: "\<And>c s. f s \<Longrightarrow> f (exec c s)"
  shows "rises f (states cs s) \<le> (if f s then 0 else 1)"
proof (induction cs arbitrary: s)
  case Nil
  then show ?case by simp
next
  case (Cons c cs)
  obtain xs where xs: "states cs (exec c s) = exec c s # xs"
    using states_Cons by blast
  with Cons.IH [of "exec c s"] mono [of s c] show ?case by (auto split: if_splits)
qed

section \<open>Single calls\<close>

text \<open>
  C1. \<open>Start()\<close> returns true exactly when the guard is in state NotStarted (neither
  flag set), and then sets \<open>started\<close> and nothing else; when \<open>started\<close> or \<open>stopped\<close>
  is already set it returns false and the object is unchanged.
\<close>

theorem Start_exactly_from_NotStarted:
  "(fst (Start s) \<longleftrightarrow> \<not> started s \<and> \<not> stopped s)
   \<and> (\<not> started s \<and> \<not> stopped s \<longrightarrow> Start s = (True, s\<lparr>started := True\<rparr>))
   \<and> (started s \<or> stopped s \<longrightarrow> Start s = (False, s))"
  by (simp add: Start_def)

theorem Start_exactly_from_NotStarted_witness:
  "Start \<lparr>started = False, stopped = False\<rparr> = (True, \<lparr>started = True, stopped = False\<rparr>)
   \<and> Start \<lparr>started = True, stopped = False\<rparr> = (False, \<lparr>started = True, stopped = False\<rparr>)
   \<and> Start \<lparr>started = False, stopped = True\<rparr> = (False, \<lparr>started = False, stopped = True\<rparr>)"
  using Start_exactly_from_NotStarted [of "\<lparr>started = False, stopped = False\<rparr>"]
        Start_exactly_from_NotStarted [of "\<lparr>started = True, stopped = False\<rparr>"]
        Start_exactly_from_NotStarted [of "\<lparr>started = False, stopped = True\<rparr>"]
  by simp

text \<open>
  C2. \<open>Stop()\<close> returns true exactly when \<open>stopped\<close> is not yet set, whatever the value
  of \<open>started\<close>, and then sets \<open>stopped\<close> and nothing else; when \<open>stopped\<close> is already
  set it returns false and the object is unchanged.
\<close>

theorem Stop_exactly_when_not_stopped:
  "(fst (Stop s) \<longleftrightarrow> \<not> stopped s)
   \<and> (\<not> stopped s \<longrightarrow> Stop s = (True, s\<lparr>stopped := True\<rparr>)
        \<and> started (snd (Stop s)) = started s)
   \<and> (stopped s \<longrightarrow> Stop s = (False, s))"
  by (simp add: Stop_def)

theorem Stop_exactly_when_not_stopped_witness:
  "Stop \<lparr>started = False, stopped = False\<rparr> = (True, \<lparr>started = False, stopped = True\<rparr>)
   \<and> Stop \<lparr>started = True, stopped = False\<rparr> = (True, \<lparr>started = True, stopped = True\<rparr>)
   \<and> Stop \<lparr>started = True, stopped = True\<rparr> = (False, \<lparr>started = True, stopped = True\<rparr>)"
  using Stop_exactly_when_not_stopped [of "\<lparr>started = False, stopped = False\<rparr>"]
        Stop_exactly_when_not_stopped [of "\<lparr>started = True, stopped = False\<rparr>"]
        Stop_exactly_when_not_stopped [of "\<lparr>started = True, stopped = True\<rparr>"]
  by simp

text \<open>
  C7. On a freshly constructed guard two consecutive \<open>Stop()\<close> calls return true, then
  false; on a freshly constructed guard two consecutive \<open>Start()\<close> calls return true,
  then false.
\<close>

theorem twice_in_a_row:
  "(fst (Stop StartStop_ctor), fst (Stop (snd (Stop StartStop_ctor)))) = (True, False)
   \<and> (fst (Start StartStop_ctor), fst (Start (snd (Start StartStop_ctor)))) = (True, False)"
  by (simp add: Start_def Stop_def StartStop_ctor_def)

text \<open>
  C6. The teardown hook on a guard with \<open>started\<close> set and \<open>stopped\<close> clear sets
  \<open>stopped\<close> (state Stopped) and touches nothing else; on a guard with both flags
  clear it changes nothing, so the guard stays in NotStarted and is not Stopped.
\<close>

theorem DestructorCheck_teardown:
  "(started s \<and> \<not> stopped s \<longrightarrow>
      DestructorCheck s = s\<lparr>stopped := True\<rparr> \<and> stopped (DestructorCheck s))
   \<and> (\<not> started s \<and> \<not> stopped s \<longrightarrow>
      DestructorCheck s = s \<and> \<not> started (DestructorCheck s) \<and> \<not> stopped (DestructorCheck s))"
  by (simp add: DestructorCheck_def Stop_def Started_def Stopped_def)

theorem DestructorCheck_teardown_witness:
  "DestructorCheck \<lparr>started = True, stopped = False\<rparr> = \<lparr>started = True, stopped = True\<rparr>
   \<and> DestructorCheck \<lparr>started = False, stopped = False\<rparr> = \<lparr>started = False, stopped = False\<rparr>"
  using DestructorCheck_teardown [of "\<lparr>started = True, stopped = False\<rparr>"]
        DestructorCheck_teardown [of "\<lparr>started = False, stopped = False\<rparr>"]
  by simp

text \<open>
  C8. \<open>Start()\<close> and \<open>Stop()\<close> have a result in every state, and it is one of two
  shapes: true with the flag set, or false with the object as it was. So a failure shows
  only as the value false, and whenever false is returned the object after the call is
  the object before it.
\<close>

theorem failure_is_only_a_false_result:
  "(Start s = (True, s\<lparr>started := True\<rparr>) \<or> Start s = (False, s))
   \<and> (Stop s = (True, s\<lparr>stopped := True\<rparr>) \<or> Stop s = (False, s))
   \<and> (\<not> fst (Start s) \<longrightarrow> snd (Start s) = s)
   \<and> (\<not> fst (Stop s) \<longrightarrow> snd (Stop s) = s)"
  by (simp add: Start_def Stop_def)

theorem failure_is_only_a_false_result_witness:
  "\<not> fst (Start \<lparr>started = True, stopped = True\<rparr>)
   \<and> snd (Start \<lparr>started = True, stopped = True\<rparr>) = \<lparr>started = True, stopped = True\<rparr>
   \<and> \<not> fst (Stop \<lparr>started = True, stopped = True\<rparr>)
   \<and> snd (Stop \<lparr>started = True, stopped = True\<rparr>) = \<lparr>started = True, stopped = True\<rparr>"
proof -
  have failed:
    "\<not> fst (Start \<lparr>started = True, stopped = True\<rparr>)"
    "\<not> fst (Stop \<lparr>started = True, stopped = True\<rparr>)"
    by (simp_all add: Start_def Stop_def)
  with failure_is_only_a_false_result [of "\<lparr>started = True, stopped = True\<rparr>"]
  show ?thesis by blast
qed

text \<open>
  C9. After the teardown hook the guard is never started without being stopped, and
  running the hook a second time changes nothing more.
\<close>

theorem DestructorCheck_closes_and_is_idempotent:
  "(started (DestructorCheck s) \<longrightarrow> stopped (DestructorCheck s))
   \<and> DestructorCheck (DestructorCheck s) = DestructorCheck s"
  by (simp add: DestructorCheck_def Stop_def Started_def Stopped_def)

theorem DestructorCheck_closes_and_is_idempotent_witness:
  "started (DestructorCheck \<lparr>started = True, stopped = False\<rparr>)
   \<and> stopped (DestructorCheck \<lparr>started = True, stopped = False\<rparr>)
   \<and> DestructorCheck (DestructorCheck \<lparr>started = True, stopped = False\<rparr>)
       = DestructorCheck \<lparr>started = True, stopped = False\<rparr>"
proof -
  have "started (DestructorCheck \<lparr>started = True, stopped = False\<rparr>)"
    by (simp add: DestructorCheck_def Stop_def Started_def Stopped_def)
  with DestructorCheck_closes_and_is_idempotent [of "\<lparr>started = True, stopped = False\<rparr>"]
  show ?thesis by blast
qed

text \<open>
  C10. The teardown hook on a guard with both flags clear leaves it usable: the next
  \<open>Start()\<close> returns true and sets \<open>started\<close>, the same result and object as a
  \<open>Start()\<close> without the hook before it.
\<close>

theorem Start_after_DestructorCheck_on_NotStarted:
  "\<not> started s \<and> \<not> stopped s \<Longrightarrow>
     Start (DestructorCheck s) = (True, s\<lparr>started := True\<rparr>)
     \<and> Start (DestructorCheck s) = Start s"
  by (simp add: DestructorCheck_def Start_def Started_def Stopped_def)

theorem Start_after_DestructorCheck_on_NotStarted_witness:
  "(\<not> started StartStop_ctor \<and> \<not> stopped StartStop_ctor)
   \<and> Start (DestructorCheck StartStop_ctor) = (True, StartStop_ctor\<lparr>started := True\<rparr>)
   \<and> Start (DestructorCheck StartStop_ctor) = Start StartStop_ctor"
proof -
  have fresh: "\<not> started StartStop_ctor \<and> \<not> stopped StartStop_ctor"
    by (simp add: StartStop_ctor_def)
  with Start_after_DestructorCheck_on_NotStarted [OF fresh]
  show ?thesis by blast
qed

section \<open>Sequences of calls from a fresh guard\<close>

text \<open>
  C3. Stopped is terminal. Let \<open>s\<close> be an object reached from a fresh guard by any
  sequence of calls, with \<open>stopped\<close> set. Then \<open>Start()\<close> and \<open>Stop()\<close> on \<open>s\<close> return
  false and leave it as it is, the teardown hook leaves it as it is and issues no call,
  and along every further sequence of calls each invocation of \<open>Start()\<close> or \<open>Stop()\<close>,
  those issued by the hook included, returns false with the object still \<open>s\<close> before
  and after.
\<close>

theorem Stopped_is_terminal:
  assumes "s = final cs StartStop_ctor" and "stopped s"
  shows "Start s = (False, s) \<and> Stop s = (False, s)
         \<and> DestructorCheck s = s \<and> issued Call_DestructorCheck s = []
         \<and> final cs' s = s
         \<and> (\<forall>e \<in> set (trace cs' s). \<not> ev_result e \<and> ev_before e = s \<and> ev_after e = s)"
  using assms(2) trace_stopped [of s _ cs']
  by (simp add: Start_def Stop_def DestructorCheck_def Stopped_def final_stopped_id)

theorem Stopped_is_terminal_witness:
  "stopped (final [Call_Stop] StartStop_ctor)
   \<and> length (trace [Call_Start, Call_DestructorCheck, Call_Stop] (final [Call_Stop] StartStop_ctor)) = 2
   \<and> final [Call_Start, Call_DestructorCheck, Call_Stop] (final [Call_Stop] StartStop_ctor)
       = final [Call_Stop] StartStop_ctor
   \<and> list_all (\<lambda>e. \<not> ev_result e \<and> ev_after e = ev_before e)
        (trace [Call_Start, Call_DestructorCheck, Call_Stop] (final [Call_Stop] StartStop_ctor))"
proof -
  have reached: "stopped (final [Call_Stop] StartStop_ctor)"
    by (simp add: Stop_def StartStop_ctor_def)
  have two:
    "length (trace [Call_Start, Call_DestructorCheck, Call_Stop]
               (final [Call_Stop] StartStop_ctor)) = 2"
    by (simp add: Start_def Stop_def DestructorCheck_def Started_def Stopped_def
          StartStop_ctor_def)
  note terminal =
    Stopped_is_terminal [OF refl reached, of "[Call_Start, Call_DestructorCheck, Call_Stop]"]
  from terminal have fixed:
    "final [Call_Start, Call_DestructorCheck, Call_Stop] (final [Call_Stop] StartStop_ctor)
       = final [Call_Stop] StartStop_ctor"
    by blast
  from terminal have
    "\<forall>e \<in> set (trace [Call_Start, Call_DestructorCheck, Call_Stop]
                    (final [Call_Stop] StartStop_ctor)).
        \<not> ev_result e \<and> ev_after e = ev_before e"
    by (metis (no_types))
  then have silent:
    "list_all (\<lambda>e. \<not> ev_result e \<and> ev_after e = ev_before e)
        (trace [Call_Start, Call_DestructorCheck, Call_Stop] (final [Call_Stop] StartStop_ctor))"
    unfolding list_all_iff .
  from reached two fixed silent show ?thesis by blast
qed

text \<open>
  C4. Along every finite sequence of \<open>Start()\<close>, \<open>Stop()\<close> and teardown-hook calls on a
  fresh guard, \<open>Start()\<close> returns true at most once, and only on an object with both
  flags clear (NotStarted); \<open>Stop()\<close>, whether called directly or by the hook, returns
  true at most once, and only on an object with \<open>stopped\<close> clear (NotStarted or Started,
  never Stopped).
\<close>

theorem succeed_at_most_once:
  "length (successes Op_Start (trace cs StartStop_ctor)) \<le> 1
   \<and> (\<forall>e \<in> set (successes Op_Start (trace cs StartStop_ctor)).
         \<not> started (ev_before e) \<and> \<not> stopped (ev_before e))
   \<and> length (successes Op_Stop (trace cs StartStop_ctor)) \<le> 1
   \<and> (\<forall>e \<in> set (successes Op_Stop (trace cs StartStop_ctor)).
         \<not> stopped (ev_before e))"
proof (intro conjI ballI)
  show "length (successes Op_Start (trace cs StartStop_ctor)) \<le> 1"
    using Start_successes_bound [of cs StartStop_ctor] by (simp split: if_splits)
  show "length (successes Op_Stop (trace cs StartStop_ctor)) \<le> 1"
    using Stop_successes_bound [of cs StartStop_ctor] by (simp split: if_splits)
next
  fix e assume "e \<in> set (successes Op_Start (trace cs StartStop_ctor))"
  from success_before [OF this]
  show "\<not> started (ev_before e)" and "\<not> stopped (ev_before e)" by simp_all
next
  fix e assume "e \<in> set (successes Op_Stop (trace cs StartStop_ctor))"
  from success_before [OF this]
  show "\<not> stopped (ev_before e)" by simp
qed

theorem succeed_at_most_once_witness:
  "length (successes Op_Start
      (trace [Call_Start, Call_Start, Call_DestructorCheck, Call_Stop] StartStop_ctor)) = 1
   \<and> length (successes Op_Stop
      (trace [Call_Start, Call_Start, Call_DestructorCheck, Call_Stop] StartStop_ctor)) = 1
   \<and> list_all (\<lambda>e. \<not> started (ev_before e) \<and> \<not> stopped (ev_before e))
        (successes Op_Start
          (trace [Call_Start, Call_Start, Call_DestructorCheck, Call_Stop] StartStop_ctor))
   \<and> list_all (\<lambda>e. \<not> stopped (ev_before e))
        (successes Op_Stop
          (trace [Call_Start, Call_Start, Call_DestructorCheck, Call_Stop] StartStop_ctor))"
proof -
  have some:
    "successes Op_Start
       (trace [Call_Start, Call_Start, Call_DestructorCheck, Call_Stop] StartStop_ctor) \<noteq> []"
    "successes Op_Stop
       (trace [Call_Start, Call_Start, Call_DestructorCheck, Call_Stop] StartStop_ctor) \<noteq> []"
    by (simp_all add: successes_def observe_def Start_def Stop_def DestructorCheck_def
          Started_def Stopped_def StartStop_ctor_def)
  then have
    "1 \<le> length (successes Op_Start
       (trace [Call_Start, Call_Start, Call_DestructorCheck, Call_Stop] StartStop_ctor))"
    "1 \<le> length (successes Op_Stop
       (trace [Call_Start, Call_Start, Call_DestructorCheck, Call_Stop] StartStop_ctor))"
    by (simp_all add: Suc_le_eq)
  with succeed_at_most_once [of "[Call_Start, Call_Start, Call_DestructorCheck, Call_Stop]"]
  show ?thesis unfolding list_all_iff by (blast intro: le_antisym)
qed

text \<open>
  C5. Monotonicity. No call (\<open>Start()\<close>, \<open>Stop()\<close> or the teardown hook) clears a flag
  that is set; so along every sequence of calls on a fresh guard neither flag ever goes
  from true to false, and each goes from false to true at most once.
\<close>

theorem flags_are_monotonic:
  "(started s \<longrightarrow> started (exec c s)) \<and> (stopped s \<longrightarrow> stopped (exec c s))
   \<and> falls started (states cs StartStop_ctor) = 0
   \<and> falls stopped (states cs StartStop_ctor) = 0
   \<and> rises started (states cs StartStop_ctor) \<le> 1
   \<and> rises stopped (states cs StartStop_ctor) \<le> 1"
proof (intro conjI impI)
  show "started s \<Longrightarrow> started (exec c s)" by (rule exec_started_mono)
  show "stopped s \<Longrightarrow> stopped (exec c s)" by (rule exec_stopped_mono)
  show "falls started (states cs StartStop_ctor) = 0"
    by (rule falls_states) (rule exec_started_mono)
  show "falls stopped (states cs StartStop_ctor) = 0"
    by (rule falls_states) (rule exec_stopped_mono)
  show "rises started (states cs StartStop_ctor) \<le> 1"
    using rises_states [of started cs StartStop_ctor, OF exec_started_mono]
    by (simp split: if_splits)
  show "rises stopped (states cs StartStop_ctor) \<le> 1"
    using rises_states [of stopped cs StartStop_ctor, OF exec_stopped_mono]
    by (simp split: if_splits)
qed

theorem flags_are_monotonic_witness:
  "started \<lparr>started = True, stopped = True\<rparr>
   \<and> started (exec Call_DestructorCheck \<lparr>started = True, stopped = True\<rparr>)
   \<and> stopped \<lparr>started = True, stopped = True\<rparr>
   \<and> stopped (exec Call_DestructorCheck \<lparr>started = True, stopped = True\<rparr>)
   \<and> falls started (states [Call_Start, Call_DestructorCheck, Call_Start] StartStop_ctor) = 0
   \<and> falls stopped (states [Call_Start, Call_DestructorCheck, Call_Start] StartStop_ctor) = 0
   \<and> rises started (states [Call_Start, Call_DestructorCheck, Call_Start] StartStop_ctor) \<le> 1
   \<and> rises stopped (states [Call_Start, Call_DestructorCheck, Call_Start] StartStop_ctor) \<le> 1"
proof -
  have "started \<lparr>started = True, stopped = True\<rparr>"
    and "stopped \<lparr>started = True, stopped = True\<rparr>" by simp_all
  with flags_are_monotonic
         [of "\<lparr>started = True, stopped = True\<rparr>" Call_DestructorCheck
             "[Call_Start, Call_DestructorCheck, Call_Start]"]
  show ?thesis by blast
qed

end
